theory Spec2Isabelle
  imports Main
begin

section \<open>Tree model (types, useBookmarks hook helpers)\<close>

text \<open>
  \<^verbatim>\<open>interface BookmarkNode { id; parentId?; index?; url?; title; dateAdded?; children? }\<close>
  together with the Chrome-only field \<^verbatim>\<open>folderType\<close> that the code reads through a cast.
  Optional fields are options; \<^verbatim>\<open>children\<close> is an optional array, and an empty array is
  still a present one.  The selector for \<^verbatim>\<open>id\<close> is called \<open>nid\<close>.
\<close>

datatype BookmarkNode = BookmarkNode
  (nid: string) (parentId: "string option") (url: "string option") (title: string)
  (folderType: "string option") (children: "BookmarkNode list option")

text \<open>JavaScript truthiness of an optional string: \<^verbatim>\<open>undefined\<close> and \<^verbatim>\<open>''\<close> are falsy.\<close>

fun truthy :: "string option \<Rightarrow> bool" where
  "truthy None = False"
| "truthy (Some s) = (s \<noteq> [])"

subsection \<open>flattenBookmarks\<close>

text \<open>The inner \<^verbatim>\<open>traverse\<close> closure pushes onto \<^verbatim>\<open>result\<close>; the array is passed explicitly.\<close>

fun traverse_flatten :: "BookmarkNode \<Rightarrow> BookmarkNode list \<Rightarrow> BookmarkNode list" where
  "traverse_flatten (BookmarkNode i p u t ft cs) result =
     (let r1 = (if truthy u then result @ [BookmarkNode i p u t ft cs] else result)
      in case cs of None \<Rightarrow> r1 | Some ks \<Rightarrow> fold traverse_flatten ks r1)"

definition flattenBookmarks :: "BookmarkNode list \<Rightarrow> BookmarkNode list" where
  "flattenBookmarks nodes = fold traverse_flatten nodes []"

subsection \<open>isSystemFolder\<close>

definition SYSTEM_FOLDER_IDS :: "string list" where
  "SYSTEM_FOLDER_IDS = [''0'']"

definition SYSTEM_FOLDER_TYPES :: "string list" where
  "SYSTEM_FOLDER_TYPES = [''bookmarks-bar'', ''other'', ''mobile'']"

text \<open>The argument is an option because the function starts with \<^verbatim>\<open>if (!node) return true\<close>.\<close>

fun isSystemFolder :: "BookmarkNode option \<Rightarrow> bool" where
  "isSystemFolder None = True"
| "isSystemFolder (Some node) =
     (if nid node = ''0'' then True
      else if parentId node = Some ''0'' then True
      else if truthy (folderType node) \<and> the (folderType node) \<in> set SYSTEM_FOLDER_TYPES
        then True
      else if nid node \<in> set SYSTEM_FOLDER_IDS then True
      else False)"

subsection \<open>getAllFolders\<close>

fun traverse_folders :: "BookmarkNode \<Rightarrow> BookmarkNode list \<Rightarrow> BookmarkNode list" where
  "traverse_folders (BookmarkNode i p u t ft cs) result =
     (let r1 = (if \<not> truthy u \<and> \<not> isSystemFolder (Some (BookmarkNode i p u t ft cs))
                then result @ [BookmarkNode i p u t ft cs] else result)
      in case cs of None \<Rightarrow> r1 | Some ks \<Rightarrow> fold traverse_folders ks r1)"

definition getAllFolders :: "BookmarkNode list \<Rightarrow> BookmarkNode list" where
  "getAllFolders nodes = fold traverse_folders nodes []"

subsection \<open>getBookmarkStats (the hook's version, which leaves system folders out)\<close>

record stats =
  bookmarkCount :: nat
  folderCount :: nat
  maxDepth :: nat

text \<open>The three counters are captured variables of the closure; they are threaded as a record.\<close>

fun traverse_stats :: "BookmarkNode \<Rightarrow> nat \<Rightarrow> stats \<Rightarrow> stats" where
  "traverse_stats (BookmarkNode i p u t ft cs) depth st =
     (if isSystemFolder (Some (BookmarkNode i p u t ft cs)) then
        (case cs of None \<Rightarrow> st
         | Some ks \<Rightarrow> fold (\<lambda>child. traverse_stats child 0) ks st)
      else
        (let st1 = (if truthy u then st\<lparr>bookmarkCount := bookmarkCount st + 1\<rparr>
                    else st\<lparr>folderCount := folderCount st + 1\<rparr>);
             st2 = st1\<lparr>maxDepth := max (maxDepth st1) depth\<rparr>
         in case cs of None \<Rightarrow> st2
            | Some ks \<Rightarrow> fold (\<lambda>child. traverse_stats child (depth + 1)) ks st2))"

definition getBookmarkStats :: "BookmarkNode list \<Rightarrow> stats" where
  "getBookmarkStats nodes =
     fold (\<lambda>node. traverse_stats node 0) nodes \<lparr>bookmarkCount = 0, folderCount = 0, maxDepth = 0\<rparr>"

subsection \<open>Pre-order enumeration of a forest, used to state properties\<close>

fun nodes_of :: "BookmarkNode \<Rightarrow> BookmarkNode list" where
  "nodes_of (BookmarkNode i p u t ft cs) =
     BookmarkNode i p u t ft cs # (case cs of None \<Rightarrow> [] | Some ks \<Rightarrow> concat (map nodes_of ks))"

definition all_nodes :: "BookmarkNode list \<Rightarrow> BookmarkNode list" where
  "all_nodes nodes = concat (map nodes_of nodes)"

text \<open>A URL-bearing node that \<open>isSystemFolder\<close> classifies as a system container.\<close>

definition url_system_node :: "BookmarkNode \<Rightarrow> bool" where
  "url_system_node n = (truthy (url n) \<and> isSystemFolder (Some n))"

text \<open>
  The data model's invariant on bookmarks: a node with a URL is a leaf bookmark, so it is not
  the root, it is not a direct child of the root (the root's children are the system
  containers, and a user cannot put anything else there) and it carries no \<^verbatim>\<open>folderType\<close>
  marker, which the browser sets on folders only.
\<close>

definition bookmark_ok :: "BookmarkNode \<Rightarrow> bool" where
  "bookmark_ok n =
     (if truthy (url n)
      then nid n \<noteq> ''0'' \<and> parentId n \<noteq> Some ''0'' \<and> folderType n = None
      else True)"

definition data_model_tree :: "BookmarkNode list \<Rightarrow> bool" where
  "data_model_tree nodes = list_all bookmark_ok (all_nodes nodes)"

section \<open>Batch dispatcher (aiService.getOrganizeSuggestions)\<close>

definition batchSize :: nat where
  "batchSize = 20"

text \<open>\<^verbatim>\<open>Array.prototype.slice(start, end)\<close> for non-negative arguments.\<close>

definition slice :: "'a list \<Rightarrow> nat \<Rightarrow> nat \<Rightarrow> 'a list" where
  "slice xs start stop = take (stop - start) (drop start xs)"

text \<open>
  \<^verbatim>\<open>for (let i = 0; i < bookmarks.length; i += batchSize) batches.push(bookmarks.slice(i, i + batchSize))\<close>
  with the step as a parameter.  For a step of 0 the loop does not return, which is the value
  \<open>None\<close>.
\<close>

partial_function (option) push_batches ::
  "nat \<Rightarrow> 'a list \<Rightarrow> nat \<Rightarrow> 'a list list \<Rightarrow> 'a list list option" where
  "push_batches step bookmarks i batches =
     (if i < length bookmarks
      then push_batches step bookmarks (i + step) (batches @ [slice bookmarks i (i + step)])
      else Some batches)"

text \<open>
  What \<^verbatim>\<open>callAI\<close> followed by \<^verbatim>\<open>JSON.parse\<close> can give for one batch: the call rejects, the text
  is not JSON, the JSON is not an array, or it is an array.  An array element is an object
  with the three fields, or \<^verbatim>\<open>null\<close>, on which \<^verbatim>\<open>item.id\<close> raises a TypeError.
\<close>

datatype item = ItemNull | Item (item_id: string) (item_category: string) (item_isNewCategory: bool)

datatype ai_response = Throws | Unparseable | NotArray | Parsed "item list"

type_synonym suggestion = "string \<times> bool"

text \<open>
  \<^verbatim>\<open>parsed.forEach(item => results.set(item.id, {...}))\<close>; a TypeError leaves the loop and is
  caught by the enclosing \<^verbatim>\<open>try\<close>, the entries set so far stay.
\<close>

fun forEach_set :: "item list \<Rightarrow> (string \<rightharpoonup> suggestion) \<Rightarrow> (string \<rightharpoonup> suggestion)" where
  "forEach_set [] results = results"
| "forEach_set (ItemNull # rest) results = results"
| "forEach_set (Item i c n # rest) results = forEach_set rest (results(i \<mapsto> (c, n)))"

text \<open>
  The observable run of the dispatcher: the returned map, the batches handed to \<^verbatim>\<open>callAI\<close>
  in order, and the arguments of every \<^verbatim>\<open>onProgress\<close> call in order.
\<close>

record dispatch =
  results :: "string \<rightharpoonup> suggestion"
  ai_calls :: "BookmarkNode list list"
  progress :: "(nat \<times> nat) list"

text \<open>
  The second loop.  \<open>callAI\<close> is the external classifier, asked with the index of the call and
  the batch (the prompt is built from the batch); \<open>onProgress\<close> says whether the optional
  callback was passed; \<open>len\<close> is \<^verbatim>\<open>bookmarks.length\<close>.
\<close>

fun run_batches ::
  "(nat \<Rightarrow> BookmarkNode list \<Rightarrow> ai_response) \<Rightarrow> bool \<Rightarrow> nat \<Rightarrow> nat
   \<Rightarrow> BookmarkNode list list \<Rightarrow> dispatch \<Rightarrow> dispatch" where
  "run_batches callAI onProgress len i [] st = st"
| "run_batches callAI onProgress len i (batch # rest) st =
     (let results' = (case callAI i batch of
                        Parsed items \<Rightarrow> forEach_set items (results st)
                      | _ \<Rightarrow> results st);
          progress' = (if onProgress then progress st @ [((i + 1) * batchSize, len)]
                       else progress st)
      in run_batches callAI onProgress len (i + 1) rest
           \<lparr>results = results', ai_calls = ai_calls st @ [batch], progress = progress'\<rparr>)"

definition getOrganizeSuggestions ::
  "(nat \<Rightarrow> BookmarkNode list \<Rightarrow> ai_response) \<Rightarrow> BookmarkNode list \<Rightarrow> bool \<Rightarrow> dispatch option" where
  "getOrganizeSuggestions callAI bookmarks onProgress =
     (case push_batches batchSize bookmarks 0 [] of
        None \<Rightarrow> None
      | Some batches \<Rightarrow>
          Some (run_batches callAI onProgress (length bookmarks) 0 batches
                  \<lparr>results = Map.empty, ai_calls = [], progress = []\<rparr>))"

declare push_batches.simps [code]

text \<open>The entries that one response stores, in the order in which they are set.\<close>

fun stored_items :: "item list \<Rightarrow> (string \<times> suggestion) list" where
  "stored_items [] = []"
| "stored_items (ItemNull # rest) = []"
| "stored_items (Item i c n # rest) = (i, (c, n)) # stored_items rest"

fun stored_entries :: "ai_response \<Rightarrow> (string \<times> suggestion) list" where
  "stored_entries (Parsed items) = stored_items items"
| "stored_entries _ = []"

definition batch_entries ::
  "(nat \<Rightarrow> BookmarkNode list \<Rightarrow> ai_response) \<Rightarrow> BookmarkNode list list \<Rightarrow> nat
   \<Rightarrow> (string \<times> suggestion) list" where
  "batch_entries callAI batches j = stored_entries (callAI j (batches ! j))"

text \<open>The call rejected, or its answer was not JSON, or not an array.\<close>

definition failed_response :: "ai_response \<Rightarrow> bool" where
  "failed_response r = (r = Throws \<or> r = Unparseable \<or> r = NotArray)"

section \<open>The browser's bookmark interface\<close>

text \<open>
  \<^verbatim>\<open>chrome.bookmarks\<close> is outside the repository.  It is a parameter: a record of functions over
  an abstract browser state \<open>'w\<close>, each of which may reject.  Of the node that
  \<^verbatim>\<open>create\<close> resolves with, the code reads only the id.
\<close>

datatype error = ChromeError | SnapshotNotFound | ConstraintError

record 'w chrome =
  bm_create :: "'w \<Rightarrow> string \<Rightarrow> string \<Rightarrow> string option \<Rightarrow> error + (string \<times> 'w)"
  bm_move :: "'w \<Rightarrow> string \<Rightarrow> string \<Rightarrow> error + 'w"
  bm_getTree :: "'w \<Rightarrow> error + BookmarkNode list"
  bm_getChildren :: "'w \<Rightarrow> string \<Rightarrow> error + BookmarkNode list"
  bm_remove :: "'w \<Rightarrow> string \<Rightarrow> error + 'w"
  bm_removeTree :: "'w \<Rightarrow> string \<Rightarrow> error + 'w"

text \<open>Every call the code issues is appended to a trace, whether it resolves or rejects.\<close>

datatype call =
    Create (c_parent: string) (c_title: string) (c_url: "string option")
  | Move string string
  | GetTree
  | GetChildren string
  | Remove string
  | RemoveTree string

record 'w session =
  trace :: "call list"
  world :: 'w

definition do_create ::
  "'w chrome \<Rightarrow> string \<Rightarrow> string \<Rightarrow> string option \<Rightarrow> 'w session \<Rightarrow> (error + string) \<times> 'w session" where
  "do_create c parent t u s =
     (case bm_create c (world s) parent t u of
        Inl e \<Rightarrow> (Inl e, s\<lparr>trace := trace s @ [Create parent t u]\<rparr>)
      | Inr (newId, w') \<Rightarrow> (Inr newId, \<lparr>trace = trace s @ [Create parent t u], world = w'\<rparr>))"

definition do_move ::
  "'w chrome \<Rightarrow> string \<Rightarrow> string \<Rightarrow> 'w session \<Rightarrow> (error + unit) \<times> 'w session" where
  "do_move c b parent s =
     (case bm_move c (world s) b parent of
        Inl e \<Rightarrow> (Inl e, s\<lparr>trace := trace s @ [Move b parent]\<rparr>)
      | Inr w' \<Rightarrow> (Inr (), \<lparr>trace = trace s @ [Move b parent], world = w'\<rparr>))"





text \<open>The titles and the parent ids of the \<^verbatim>\<open>create\<close> calls in a trace, in order.\<close>

fun create_titles :: "call list \<Rightarrow> string list" where
  "create_titles [] = []"
| "create_titles (Create p t u # rest) = t # create_titles rest"
| "create_titles (_ # rest) = create_titles rest"

fun create_parents :: "call list \<Rightarrow> string list" where
  "create_parents [] = []"
| "create_parents (Create p t u # rest) = p # create_parents rest"
| "create_parents (_ # rest) = create_parents rest"




section \<open>Applying the confirmed changes (BatchOrganize.handleApplyChanges)\<close>

record OrganizeResult =
  bookmarkId :: string
  r_title :: string
  r_url :: string
  originalFolder :: string
  suggestedFolder :: string
  isNewCategory :: bool

text \<open>The title of the bookmarks bar in a Chinese-language browser, as UTF-8 bytes.\<close>

definition TITLE_ZH :: string where
  "TITLE_ZH = [CHR 0xE4, CHR 0xB9, CHR 0xA6, CHR 0xE7, CHR 0xAD, CHR 0xBE, CHR 0xE6, CHR 0xA0, CHR 0x8F]"

definition TITLE_EN :: string where
  "TITLE_EN = ''Bookmarks Bar''"

text \<open>
  \<^verbatim>\<open>findBookmarkBarId\<close>: the loop over \<^verbatim>\<open>nodes\<close> is the recursion on the list; \<^verbatim>\<open>if (found)\<close> is
  the truthiness of the string that the recursive call returned.
\<close>

function findBookmarkBarId :: "BookmarkNode list \<Rightarrow> string" where
  "findBookmarkBarId [] = ''1''"
| "findBookmarkBarId (BookmarkNode i p u t ft cs # rest) =
     (if t = TITLE_ZH \<or> t = TITLE_EN then i
      else (case cs of
              None \<Rightarrow> findBookmarkBarId rest
            | Some ks \<Rightarrow>
                (let found = findBookmarkBarId ks
                 in if found \<noteq> [] then found else findBookmarkBarId rest)))"
  by pat_completeness auto
termination
  by (relation "measure (size_list size)") auto

text \<open>The first loop: one new folder per new category name not yet in \<^verbatim>\<open>newFolders\<close>.\<close>

fun create_new_folders ::
  "'w chrome \<Rightarrow> BookmarkNode list \<Rightarrow> OrganizeResult list \<Rightarrow> (string \<rightharpoonup> string) \<Rightarrow> 'w session
   \<Rightarrow> error option \<times> (string \<rightharpoonup> string) \<times> 'w session" where
  "create_new_folders c tree [] newFolders s = (None, newFolders, s)"
| "create_new_folders c tree (r # rest) newFolders s =
     (if isNewCategory r \<and> newFolders (suggestedFolder r) = None then
        (let bookmarkBarId = findBookmarkBarId tree
         in case do_create c bookmarkBarId (suggestedFolder r) None s of
              (Inl e, s') \<Rightarrow> (Some e, newFolders, s')
            | (Inr newId, s') \<Rightarrow>
                create_new_folders c tree rest (newFolders(suggestedFolder r \<mapsto> newId)) s')
      else create_new_folders c tree rest newFolders s)"

text \<open>The second loop: the move of every result whose target id is truthy.\<close>

definition targetFolderId ::
  "BookmarkNode list \<Rightarrow> (string \<rightharpoonup> string) \<Rightarrow> OrganizeResult \<Rightarrow> string option" where
  "targetFolderId existingFolders newFolders r =
     (if isNewCategory r then newFolders (suggestedFolder r)
      else map_option nid (find (\<lambda>f. title f = suggestedFolder r) existingFolders))"

fun move_bookmarks ::
  "'w chrome \<Rightarrow> BookmarkNode list \<Rightarrow> OrganizeResult list \<Rightarrow> (string \<rightharpoonup> string) \<Rightarrow> 'w session
   \<Rightarrow> error option \<times> 'w session" where
  "move_bookmarks c existingFolders [] newFolders s = (None, s)"
| "move_bookmarks c existingFolders (r # rest) newFolders s =
     (let target = targetFolderId existingFolders newFolders r
      in if truthy target \<and> the target \<noteq> bookmarkId r then
           (case do_move c (bookmarkId r) (the target) s of
              (Inl e, s') \<Rightarrow> (Some e, s')
            | (Inr _, s') \<Rightarrow> move_bookmarks c existingFolders rest newFolders s')
         else move_bookmarks c existingFolders rest newFolders s)"

text \<open>
  \<^verbatim>\<open>handleApplyChanges\<close>: \<open>tree\<close> is the component's tree, \<open>existingFolders\<close> is
  \<^verbatim>\<open>getAllFolders(tree)\<close>.  A rejected call leaves the \<^verbatim>\<open>try\<close> block; the error is what
  \<^verbatim>\<open>setError\<close> receives.
\<close>

definition handleApplyChanges ::
  "'w chrome \<Rightarrow> BookmarkNode list \<Rightarrow> OrganizeResult list \<Rightarrow> 'w \<Rightarrow> error option \<times> 'w session" where
  "handleApplyChanges c tree organizeResults w =
     (let existingFolders = getAllFolders tree
      in case create_new_folders c tree organizeResults Map.empty \<lparr>trace = [], world = w\<rparr> of
           (Some e, newFolders, s) \<Rightarrow> (Some e, s)
         | (None, newFolders, s) \<Rightarrow> move_bookmarks c existingFolders organizeResults newFolders s)"

section \<open>Restoring a snapshot (storageService.restoreSnapshot)\<close>









section \<open>Tag index (storageService)\<close>

record Tag =
  tag_id :: string
  tag_name :: string
  bookmarkIds :: "string list"
  createdAt :: nat

text \<open>
  The \<^verbatim>\<open>tags\<close> object store: records keyed by \<^verbatim>\<open>id\<close>, with a unique index on \<^verbatim>\<open>name\<close>.
  \<^verbatim>\<open>put\<close> replaces the record that has the same key or adds one, and is refused when another
  record already has the name.
\<close>

type_synonym tag_store = "Tag list"

definition store_get :: "tag_store \<Rightarrow> string \<Rightarrow> Tag option" where
  "store_get db tagId = find (\<lambda>t. tag_id t = tagId) db"

definition store_delete :: "string \<Rightarrow> tag_store \<Rightarrow> tag_store" where
  "store_delete tagId db = filter (\<lambda>t. tag_id t \<noteq> tagId) db"

definition store_put :: "Tag \<Rightarrow> tag_store \<Rightarrow> error + tag_store" where
  "store_put tag db =
     (if list_ex (\<lambda>t. tag_id t \<noteq> tag_id tag \<and> tag_name t = tag_name tag) db
        then Inl ConstraintError
      else if list_ex (\<lambda>t. tag_id t = tag_id tag) db
        then Inr (map (\<lambda>t. if tag_id t = tag_id tag then tag else t) db)
      else Inr (db @ [tag]))"

definition saveTag :: "Tag \<Rightarrow> tag_store \<Rightarrow> error + tag_store" where
  "saveTag tag db = store_put tag db"

definition updateTag :: "Tag \<Rightarrow> tag_store \<Rightarrow> error + tag_store" where
  "updateTag tag db = saveTag tag db"

definition getTagByName :: "tag_store \<Rightarrow> string \<Rightarrow> Tag option" where
  "getTagByName db n = find (\<lambda>t. tag_name t = n) db"

text \<open>
  \<^verbatim>\<open>addTagsToBookmark\<close>: \<open>normalizeName\<close> is \<^verbatim>\<open>tagName.trim().toLowerCase()\<close>, two functions of the
  JavaScript runtime (Unicode-aware), taken as a parameter; \<open>newId k\<close> and \<open>now k\<close> are what the
  id expression and \<^verbatim>\<open>Date.now()\<close> give in the k-th round of the loop.  A rejected \<^verbatim>\<open>put\<close>
  leaves the loop with the store as the earlier rounds left it.
\<close>

fun addTags_loop ::
  "(string \<Rightarrow> string) \<Rightarrow> (nat \<Rightarrow> string) \<Rightarrow> (nat \<Rightarrow> nat) \<Rightarrow> string \<Rightarrow> nat
   \<Rightarrow> string list \<Rightarrow> tag_store \<Rightarrow> error option \<times> tag_store" where
  "addTags_loop normalizeName newId now bookmark k [] db = (None, db)"
| "addTags_loop normalizeName newId now bookmark k (tagName # rest) db =
     (let normalizedName = normalizeName tagName
      in if normalizedName = [] then addTags_loop normalizeName newId now bookmark (k + 1) rest db
         else
           (case getTagByName db normalizedName of
              Some existingTag \<Rightarrow>
                (if bookmark \<notin> set (bookmarkIds existingTag) then
                   (case updateTag
                           (existingTag\<lparr>bookmarkIds := bookmarkIds existingTag @ [bookmark]\<rparr>) db of
                      Inl e \<Rightarrow> (Some e, db)
                    | Inr db' \<Rightarrow> addTags_loop normalizeName newId now bookmark (k + 1) rest db')
                 else addTags_loop normalizeName newId now bookmark (k + 1) rest db)
            | None \<Rightarrow>
                (case saveTag \<lparr>tag_id = newId k, tag_name = normalizedName,
                               bookmarkIds = [bookmark], createdAt = now k\<rparr> db of
                   Inl e \<Rightarrow> (Some e, db)
                 | Inr db' \<Rightarrow> addTags_loop normalizeName newId now bookmark (k + 1) rest db')))"

definition addTagsToBookmark ::
  "(string \<Rightarrow> string) \<Rightarrow> (nat \<Rightarrow> string) \<Rightarrow> (nat \<Rightarrow> nat) \<Rightarrow> string \<Rightarrow> string list \<Rightarrow> tag_store
   \<Rightarrow> error option \<times> tag_store" where
  "addTagsToBookmark normalizeName newId now bookmark tagNames db =
     addTags_loop normalizeName newId now bookmark 0 tagNames db"

text \<open>
  \<^verbatim>\<open>removeTagFromBookmark\<close>: the requests made inside \<^verbatim>\<open>onsuccess\<close> have no error handler and
  the promise resolves at once, so a refused \<^verbatim>\<open>put\<close> leaves the store as it was.
\<close>

definition removeTagFromBookmark :: "string \<Rightarrow> string \<Rightarrow> tag_store \<Rightarrow> tag_store" where
  "removeTagFromBookmark bookmark tagId db =
     (case store_get db tagId of
        None \<Rightarrow> db
      | Some tag \<Rightarrow>
          (let ids = filter (\<lambda>i. i \<noteq> bookmark) (bookmarkIds tag)
           in if length ids = 0 then store_delete tagId db
              else (case store_put (tag\<lparr>bookmarkIds := ids\<rparr>) db of
                      Inl e \<Rightarrow> db
                    | Inr db' \<Rightarrow> db')))"

definition deleteTag :: "string \<Rightarrow> tag_store \<Rightarrow> tag_store" where
  "deleteTag tagId db = store_delete tagId db"

text \<open>The invariant of the tag store.\<close>

definition tags_nonempty :: "tag_store \<Rightarrow> bool" where
  "tags_nonempty db = list_all (\<lambda>t. bookmarkIds t \<noteq> []) db"

text \<open>What the unique index on \<^verbatim>\<open>name\<close> guarantees of the store.\<close>

definition names_unique :: "tag_store \<Rightarrow> bool" where
  "names_unique db = distinct (map tag_name db)"

text \<open>
  How one tag of the store after \<^verbatim>\<open>addTagsToBookmark\<close> relates to the store before: it is
  untouched, or it is an earlier tag with the bookmark appended (which it did not hold), or
  it holds the bookmark alone.
\<close>

definition added_to :: "string \<Rightarrow> tag_store \<Rightarrow> Tag \<Rightarrow> bool" where
  "added_to bookmark db t =
     (t \<in> set db
      \<or> list_ex (\<lambda>t0. bookmark \<notin> set (bookmarkIds t0)
                    \<and> t = t0\<lparr>bookmarkIds := bookmarkIds t0 @ [bookmark]\<rparr>) db
      \<or> bookmarkIds t = [bookmark])"

section \<open>Concrete trees and a test browser\<close>

text \<open>
  The tree root \<open>\<rightarrow>\<close> bookmarks bar \<open>\<rightarrow>\<close> [FolderA [bookmark1], bookmark2], as Chrome reports it.
\<close>

definition bookmark1 :: BookmarkNode where
  "bookmark1 = BookmarkNode ''20'' (Some ''10'') (Some ''https://u1.example/'') ''bookmark1'' None None"

definition bookmark2 :: BookmarkNode where
  "bookmark2 = BookmarkNode ''21'' (Some ''1'') (Some ''https://u2.example/'') ''bookmark2'' None None"

definition folderA :: BookmarkNode where
  "folderA = BookmarkNode ''10'' (Some ''1'') None ''FolderA'' None (Some [bookmark1])"

definition bookmarks_bar :: BookmarkNode where
  "bookmarks_bar =
     BookmarkNode ''1'' (Some ''0'') None ''Bookmarks bar'' (Some ''bookmarks-bar'')
       (Some [folderA, bookmark2])"

definition scenario_tree :: "BookmarkNode list" where
  "scenario_tree = [BookmarkNode ''0'' None None [] None (Some [bookmarks_bar])]"

text \<open>
  A browser that accepts every call, hands out the ids \<open>new\<close>, \<open>new+\<close>, \<open>new++\<close>, ... and
  reports the fixed tree \<open>live\<close>.  Its state counts the nodes created.
\<close>

definition fresh_id :: "nat \<Rightarrow> string" where
  "fresh_id k = ''new'' @ replicate k (CHR ''+'')"

definition test_chrome :: "BookmarkNode list \<Rightarrow> nat chrome" where
  "test_chrome live =
     \<lparr>bm_create = (\<lambda>w parent t u. Inr (fresh_id w, Suc w)),
      bm_move = (\<lambda>w b parent. Inr w),
      bm_getTree = (\<lambda>w. Inr live),
      bm_getChildren = (\<lambda>w folderId.
         (case find (\<lambda>n. nid n = folderId) (all_nodes live) of
            None \<Rightarrow> Inl ChromeError
          | Some n \<Rightarrow> Inr (case children n of None \<Rightarrow> [] | Some ks \<Rightarrow> ks))),
      bm_remove = (\<lambda>w b. Inr w),
      bm_removeTree = (\<lambda>w b. Inr w)\<rparr>"

text \<open>Twenty-one bookmarks, which make two batches, and a classifier whose first call rejects.\<close>

definition numbered_bookmark :: "nat \<Rightarrow> BookmarkNode" where
  "numbered_bookmark k =
     BookmarkNode (fresh_id k) (Some ''10'') (Some ''https://u.example/'') ''page'' None None"

definition bookmarks21 :: "BookmarkNode list" where
  "bookmarks21 = map numbered_bookmark [0..<21]"

definition first_fails :: "nat \<Rightarrow> BookmarkNode list \<Rightarrow> ai_response" where
  "first_fails i batch =
     (if i = 0 then Throws else Parsed [Item (fresh_id 0) ''Research'' True])"

text \<open>A classifier that answers every batch with one suggestion per bookmark.\<close>

definition answers_all :: "nat \<Rightarrow> BookmarkNode list \<Rightarrow> ai_response" where
  "answers_all i batch = Parsed (map (\<lambda>b. Item (nid b) ''Research'' True) batch)"

definition second_fails :: "nat \<Rightarrow> BookmarkNode list \<Rightarrow> ai_response" where
  "second_fails i batch = (if i = 1 then Unparseable else answers_all i batch)"

text \<open>A result that keeps bookmark1 in FolderA, where it already is.\<close>

definition stays_in_folderA :: OrganizeResult where
  "stays_in_folderA =
     \<lparr>bookmarkId = ''20'', r_title = ''bookmark1'', r_url = ''https://u1.example/'',
      originalFolder = ''FolderA'', suggestedFolder = ''FolderA'', isNewCategory = False\<rparr>"

text \<open>Five results that all suggest the new category Research.\<close>

definition to_research :: "nat \<Rightarrow> OrganizeResult" where
  "to_research k =
     \<lparr>bookmarkId = CHR ''b'' # fresh_id k, r_title = ''page'', r_url = ''https://u.example/'',
      originalFolder = ''FolderA'', suggestedFolder = ''Research'', isNewCategory = True\<rparr>"

definition five_to_research :: "OrganizeResult list" where
  "five_to_research = map to_research [0..<5]"

text \<open>A tree in which the user has a folder titled Bookmarks Bar inside the bookmarks bar.\<close>

definition user_folder_named_bar :: BookmarkNode where
  "user_folder_named_bar = BookmarkNode ''10'' (Some ''1'') None ''Bookmarks Bar'' None (Some [])"

definition tree_with_named_folder :: "BookmarkNode list" where
  "tree_with_named_folder =
     [BookmarkNode ''0'' None None [] None
        (Some [BookmarkNode ''1'' (Some ''0'') None ''Bookmarks bar'' (Some ''bookmarks-bar'')
                 (Some [user_folder_named_bar, bookmark2])])]"




text \<open>
  What \<^verbatim>\<open>tagName.trim().toLowerCase()\<close> gives on a name made of ASCII characters only: the six
  ASCII white-space characters are stripped at both ends and the letters A to Z are lowered.
  It is the normalisation used in the examples; the model of the tag index takes the
  normalisation as a parameter.
\<close>

definition is_space :: "char \<Rightarrow> bool" where
  "is_space ch = (ch \<in> set [CHR '' '', CHR 0x09, CHR 0x0A, CHR 0x0B, CHR 0x0C, CHR 0x0D])"

definition lower_char :: "char \<Rightarrow> char" where
  "lower_char ch =
     (let n = (of_char ch :: nat) in if 65 \<le> n \<and> n \<le> 90 then char_of (n + 32) else ch)"

definition ascii_normalize :: "string \<Rightarrow> string" where
  "ascii_normalize s = map lower_char (rev (dropWhile is_space (rev (dropWhile is_space s))))"

text \<open>The tag \<open>ai\<close> with a given set of bookmark ids.\<close>

definition tag_ai :: "string list \<Rightarrow> Tag" where
  "tag_ai ids = \<lparr>tag_id = ''tag_1'', tag_name = ''ai'', bookmarkIds = ids, createdAt = 1\<rparr>"

section \<open>Properties of the tree model\<close>

lemma fold_append_acc:
  assumes "\<And>k r. k \<in> set ks \<Longrightarrow> f k r = r @ g k"
  shows "fold f ks r = r @ concat (map g ks)"
  using assms by (induction ks arbitrary: r) simp_all

lemma traverse_flatten_filter:
  "traverse_flatten n r = r @ filter (\<lambda>m. truthy (url m)) (nodes_of n)"
proof (induction n r rule: traverse_flatten.induct)
  case (1 i p u t ft cs result)
  show ?case
  proof (cases cs)
    case None
    then show ?thesis by simp
  next
    case (Some ks)
    let ?r1 = "if truthy u then result @ [BookmarkNode i p u t ft cs] else result"
    have "fold traverse_flatten ks ?r1
          = ?r1 @ concat (map (\<lambda>k. filter (\<lambda>m. truthy (url m)) (nodes_of k)) ks)"
      by (rule fold_append_acc) (rule "1.IH"[OF refl Some])
    with Some show ?thesis by (cases "truthy u") (simp_all add: filter_concat comp_def)
  qed
qed

lemma flattenBookmarks_filter:
  "flattenBookmarks nodes = filter (\<lambda>m. truthy (url m)) (all_nodes nodes)"
proof -
  have "fold traverse_flatten nodes []
        = [] @ concat (map (\<lambda>k. filter (\<lambda>m. truthy (url m)) (nodes_of k)) nodes)"
    by (rule fold_append_acc) (rule traverse_flatten_filter)
  then show ?thesis by (simp add: flattenBookmarks_def all_nodes_def filter_concat comp_def)
qed

lemma fold_count_acc:
  assumes "\<And>k s. k \<in> set ks \<Longrightarrow> bookmarkCount (f k s) = bookmarkCount s + c k"
  shows "bookmarkCount (fold f ks st) = bookmarkCount st + sum_list (map c ks)"
  using assms by (induction ks arbitrary: st) simp_all

lemma length_filter_concat_map:
  "length (filter P (concat (map g ks))) = sum_list (map (\<lambda>k. length (filter P (g k))) ks)"
  by (induction ks) simp_all

lemma traverse_stats_count:
  "bookmarkCount (traverse_stats n d st)
   = bookmarkCount st
     + length (filter (\<lambda>m. truthy (url m) \<and> \<not> isSystemFolder (Some m)) (nodes_of n))"
proof (induction n d st rule: traverse_stats.induct)
  case (1 i p u t ft cs depth st)
  let ?n = "BookmarkNode i p u t ft cs"
  let ?P = "\<lambda>m. truthy (url m) \<and> \<not> isSystemFolder (Some m)"
  show ?case
  proof (cases cs)
    case None
    then show ?thesis by (simp add: Let_def)
  next
    case (Some ks)
    show ?thesis
    proof (cases "isSystemFolder (Some ?n)")
      case True
      have "bookmarkCount (fold (\<lambda>child. traverse_stats child 0) ks st)
            = bookmarkCount st + sum_list (map (\<lambda>k. length (filter ?P (nodes_of k))) ks)"
        by (rule fold_count_acc) (rule "1.IH"(1)[OF True Some])
      with True Some show ?thesis
        by (simp add: length_filter_concat_map del: isSystemFolder.simps)
    next
      case False
      let ?st1 = "if truthy u then st\<lparr>bookmarkCount := bookmarkCount st + 1\<rparr>
                  else st\<lparr>folderCount := folderCount st + 1\<rparr>"
      let ?st2 = "?st1\<lparr>maxDepth := max (maxDepth ?st1) depth\<rparr>"
      have "bookmarkCount (fold (\<lambda>child. traverse_stats child (depth + 1)) ks ?st2)
            = bookmarkCount ?st2 + sum_list (map (\<lambda>k. length (filter ?P (nodes_of k))) ks)"
        by (rule fold_count_acc) (rule "1.IH"(2)[OF False refl refl Some])
      with False Some show ?thesis
        by (cases "truthy u")
           (simp_all add: length_filter_concat_map Let_def del: isSystemFolder.simps)
    qed
  qed
qed

lemma getBookmarkStats_count:
  "bookmarkCount (getBookmarkStats nodes)
   = length (filter (\<lambda>m. truthy (url m) \<and> \<not> isSystemFolder (Some m)) (all_nodes nodes))"
proof -
  let ?P = "\<lambda>m. truthy (url m) \<and> \<not> isSystemFolder (Some m)"
  have "bookmarkCount (fold (\<lambda>node. traverse_stats node 0) nodes
          \<lparr>bookmarkCount = 0, folderCount = 0, maxDepth = 0\<rparr>)
        = bookmarkCount \<lparr>bookmarkCount = 0, folderCount = 0, maxDepth = 0\<rparr>
          + sum_list (map (\<lambda>k. length (filter ?P (nodes_of k))) nodes)"
    by (rule fold_count_acc) (rule traverse_stats_count)
  then show ?thesis
    by (simp add: getBookmarkStats_def all_nodes_def length_filter_concat_map)
qed

lemma length_filter_split:
  "length (filter P xs) = length (filter (\<lambda>x. P x \<and> \<not> Q x) xs) + length (filter (\<lambda>x. P x \<and> Q x) xs)"
  by (induction xs) auto

lemma traverse_folders_filter:
  "traverse_folders n r
   = r @ filter (\<lambda>m. \<not> truthy (url m) \<and> \<not> isSystemFolder (Some m)) (nodes_of n)"
proof (induction n r rule: traverse_folders.induct)
  case (1 i p u t ft cs result)
  let ?n = "BookmarkNode i p u t ft cs"
  let ?P = "\<lambda>m. \<not> truthy (url m) \<and> \<not> isSystemFolder (Some m)"
  show ?case
  proof (cases cs)
    case None
    then show ?thesis by simp
  next
    case (Some ks)
    let ?r1 = "if \<not> truthy u \<and> \<not> isSystemFolder (Some ?n) then result @ [?n] else result"
    have "fold traverse_folders ks ?r1 = ?r1 @ concat (map (\<lambda>k. filter ?P (nodes_of k)) ks)"
      by (rule fold_append_acc) (rule "1.IH"[OF refl Some])
    with Some show ?thesis
      by (cases "truthy u"; cases "isSystemFolder (Some ?n)")
         (simp_all add: filter_concat comp_def del: isSystemFolder.simps)
  qed
qed

lemma getAllFolders_filter:
  "getAllFolders nodes
   = filter (\<lambda>m. \<not> truthy (url m) \<and> \<not> isSystemFolder (Some m)) (all_nodes nodes)"
proof -
  let ?P = "\<lambda>m. \<not> truthy (url m) \<and> \<not> isSystemFolder (Some m)"
  have "fold traverse_folders nodes [] = [] @ concat (map (\<lambda>k. filter ?P (nodes_of k)) nodes)"
    by (rule fold_append_acc) (rule traverse_folders_filter)
  then show ?thesis by (simp add: getAllFolders_def all_nodes_def filter_concat comp_def)
qed

text \<open>
  C7.  A node whose \<^verbatim>\<open>parentId\<close> is the root id \<^verbatim>\<open>'0'\<close> is a system folder for
  \<open>isSystemFolder\<close> whatever its id, URL, title, \<^verbatim>\<open>folderType\<close> marker and children are, and
  \<open>getAllFolders\<close>, which lists the user folders, never returns such a node.
\<close>

theorem parent_root_is_system_folder:
  "isSystemFolder (Some (BookmarkNode i (Some ''0'') u t ft cs))
   \<and> BookmarkNode i (Some ''0'') u t ft cs \<notin> set (getAllFolders nodes)"
  by (simp add: getAllFolders_filter)

theorem parent_root_is_system_folder_witness:
  "isSystemFolder (Some bookmarks_bar) \<and> bookmarks_bar \<notin> set (getAllFolders scenario_tree)"
  unfolding bookmarks_bar_def by (rule parent_root_is_system_folder)

lemma flatten_stats_exact:
  "length (flattenBookmarks nodes)
   = bookmarkCount (getBookmarkStats nodes) + length (filter url_system_node (all_nodes nodes))"
  unfolding flattenBookmarks_filter getBookmarkStats_count url_system_node_def
  by (rule length_filter_split)

lemma bookmark_ok_not_system:
  "bookmark_ok n \<Longrightarrow> \<not> url_system_node n"
  by (auto simp: bookmark_ok_def url_system_node_def SYSTEM_FOLDER_IDS_def split: if_splits)

text \<open>
  C8.  For every tree that keeps the data model's invariant on bookmarks (no node with a URL
  is the root, a direct child of the root or a carrier of a \<^verbatim>\<open>folderType\<close> marker), the number
  of nodes returned by \<open>flattenBookmarks\<close> equals the \<open>bookmarkCount\<close> computed by
  \<open>getBookmarkStats\<close> on the same tree; and for any tree whatever, every node returned by
  \<open>flattenBookmarks\<close> has a URL.
\<close>

theorem flatten_length_is_bookmarkCount:
  "(data_model_tree nodes \<longrightarrow>
      length (flattenBookmarks nodes) = bookmarkCount (getBookmarkStats nodes))
   \<and> list_all (\<lambda>n. truthy (url n)) (flattenBookmarks nodes)"
proof -
  have a: "list_all (\<lambda>n. truthy (url n)) (flattenBookmarks nodes)"
    by (simp add: flattenBookmarks_filter list_all_iff)
  have b: "length (flattenBookmarks nodes) = bookmarkCount (getBookmarkStats nodes)"
    if "data_model_tree nodes"
  proof -
    from that have "filter url_system_node (all_nodes nodes) = []"
      by (auto simp: data_model_tree_def list_all_iff filter_empty_conv
               dest: bookmark_ok_not_system)
    with flatten_stats_exact[of nodes] show ?thesis by simp
  qed
  from a b show ?thesis by blast
qed

theorem flatten_length_is_bookmarkCount_witness:
  "data_model_tree scenario_tree
   \<and> flattenBookmarks scenario_tree = [bookmark1, bookmark2]
   \<and> bookmarkCount (getBookmarkStats scenario_tree) = 2"
proof -
  have d: "data_model_tree scenario_tree" by code_simp
  have f: "flattenBookmarks scenario_tree = [bookmark1, bookmark2]" by code_simp
  from flatten_length_is_bookmarkCount[of scenario_tree] d f
  have "bookmarkCount (getBookmarkStats scenario_tree) = 2" by simp
  with d f show ?thesis by (intro conjI) (assumption+)
qed

section \<open>Properties of the batch dispatcher\<close>

lemma ceil_step:
  fixes L i step :: nat
  assumes "i < L" "0 < step"
  shows "(L - i + step - 1) div step = Suc ((L - (i + step) + step - 1) div step)"
proof (cases "i + step \<le> L")
  case True
  define d where "d = L - (i + step) + step - 1"
  have l: "L - i + step - 1 = d + step" using True assms unfolding d_def by linarith
  have "(d + step) div step = Suc (d div step)" using assms div_add_self2[of step d] by simp
  then show ?thesis unfolding l d_def .
next
  case False
  define e where "e = L - i - 1"
  have l: "L - i + step - 1 = e + step" using assms unfolding e_def by linarith
  have s: "e < step" using False assms unfolding e_def by linarith
  have r: "L - (i + step) + step - 1 = step - 1" using False by linarith
  have "(e + step) div step = Suc (e div step)" using assms div_add_self2[of step e] by simp
  also have "e div step = 0" using s by simp
  also have "0 = (step - 1) div step" using assms by simp
  finally show ?thesis unfolding l r .
qed

lemma push_batches_closed:
  assumes "0 < step"
  shows "push_batches step xs i acc
         = Some (acc @ map (\<lambda>k. slice xs (i + k * step) (i + k * step + step))
                         [0..<(length xs - i + step - 1) div step])"
proof (induction "length xs - i" arbitrary: i acc rule: less_induct)
  case less
  show ?case
  proof (cases "i < length xs")
    case False
    then have "length xs - i = 0" by simp
    then have "(length xs - i + step - 1) div step = 0" using assms by simp
    with False show ?thesis by (subst push_batches.simps) simp
  next
    case True
    have lt: "length xs - (i + step) < length xs - i" using True assms by simp
    have "push_batches step xs i acc
          = push_batches step xs (i + step) (acc @ [slice xs i (i + step)])"
      using True by (subst push_batches.simps) simp
    also have "\<dots> = Some ((acc @ [slice xs i (i + step)])
                 @ map (\<lambda>k. slice xs (i + step + k * step) (i + step + k * step + step))
                     [0..<(length xs - (i + step) + step - 1) div step])"
      by (rule less[OF lt])
    finally have e: "push_batches step xs i acc
        = Some (acc @ slice xs i (i + step)
                 # map (\<lambda>k. slice xs (i + step + k * step) (i + step + k * step + step))
                     [0..<(length xs - (i + step) + step - 1) div step])"
      by simp
    have m: "map (\<lambda>k. slice xs (i + k * step) (i + k * step + step)) [0..<Suc n]
          = slice xs i (i + step)
            # map (\<lambda>k. slice xs (i + step + k * step) (i + step + k * step + step)) [0..<n]"
      for n
      by (simp add: map_upt_Suc add.assoc add.left_commute del: upt_Suc)
    show ?thesis
      unfolding e ceil_step[OF True assms] m ..
  qed
qed

lemma push_batches_chunks:
  assumes "0 < step"
  shows "push_batches step xs 0 []
         = Some (map (\<lambda>k. take step (drop (k * step) xs)) [0..<(length xs + step - 1) div step])"
  using push_batches_closed[OF assms, of xs 0 "[]"] by (simp add: slice_def)

lemma ceil_mult_ge:
  fixes L step :: nat
  assumes "0 < step"
  shows "L \<le> ((L + step - 1) div step) * step"
proof -
  have "(L + step - 1) mod step < step" using assms by simp
  moreover have "((L + step - 1) div step) * step + (L + step - 1) mod step = L + step - 1"
    by (rule div_mult_mod_eq)
  ultimately show ?thesis using assms by linarith
qed

lemma ceil_pred_mult_lt:
  fixes L step k :: nat
  assumes "0 < step" "k < (L + step - 1) div step"
  shows "k * step < L"
proof -
  have "Suc k \<le> (L + step - 1) div step" using assms by linarith
  then have "Suc k * step \<le> ((L + step - 1) div step) * step" by (rule mult_le_mono1)
  also have "\<dots> \<le> L + step - 1" by (rule div_times_less_eq_dividend)
  finally have "k * step + step \<le> L + step - 1" by (simp only: mult_Suc add.commute)
  then show ?thesis using assms by linarith
qed

lemma concat_chunks:
  "concat (map (\<lambda>k. take step (drop (k * step) xs)) [0..<n]) = take (n * step) xs"
proof (induction n)
  case 0
  then show ?case by simp
next
  case (Suc n)
  have "take (n * step) xs @ take step (drop (n * step) xs) = take (n * step + step) xs"
    by (simp add: take_add)
  with Suc show ?case by (simp add: add.commute)
qed

lemma run_batches_ai_calls:
  "ai_calls (run_batches callAI onProgress len i batches st) = ai_calls st @ batches"
  by (induction callAI onProgress len i batches st rule: run_batches.induct)
     (simp_all add: Let_def)

lemma run_batches_progress:
  "progress (run_batches callAI True len i batches st)
   = progress st @ map (\<lambda>k. ((i + k + 1) * batchSize, len)) [0..<length batches]"
proof (induction callAI True len i batches st rule: run_batches.induct)
  case (1 callAI len i st)
  then show ?case by simp
next
  case (2 callAI len i batch rest st)
  then show ?case by (simp add: Let_def map_upt_Suc del: upt_Suc)
qed

lemma getOrganizeSuggestions_Some:
  "getOrganizeSuggestions callAI bookmarks onProgress
   = Some (run_batches callAI onProgress (length bookmarks) 0
             (map (\<lambda>k. take batchSize (drop (k * batchSize) bookmarks))
                  [0..<(length bookmarks + batchSize - 1) div batchSize])
             \<lparr>results = Map.empty, ai_calls = [], progress = []\<rparr>)"
proof -
  have "0 < batchSize" by (simp add: batchSize_def)
  from push_batches_chunks[OF this, of bookmarks] show ?thesis
    by (simp add: getOrganizeSuggestions_def)
qed

text \<open>
  C6.  For a bookmark list of length N and a batch size B > 0 the partition loop returns
  ceil(N/B) batches, written \<open>(N + B - 1) div B\<close>; batch k is the B bookmarks from position
  k * B on (fewer in the last one, never none), so their concatenation is the input list:
  every bookmark is in one batch, once, in the input order.  The dispatcher, whose batch size
  is 20, hands exactly these batches to the classifier, one call each, in order.
\<close>

theorem batches_partition:
  assumes "0 < B"
  shows "\<exists>batches d.
           push_batches B bookmarks 0 [] = Some batches
         \<and> length batches = (length bookmarks + B - 1) div B
         \<and> concat batches = bookmarks
         \<and> (\<forall>k<length batches.
                batches ! k = take B (drop (k * B) bookmarks)
              \<and> batches ! k \<noteq> []
              \<and> (Suc k < length batches \<longrightarrow> length (batches ! k) = B))
         \<and> getOrganizeSuggestions callAI bookmarks onProgress = Some d
         \<and> push_batches batchSize bookmarks 0 [] = Some (ai_calls d)"
proof -
  let ?n = "(length bookmarks + B - 1) div B"
  let ?f = "\<lambda>k. take B (drop (k * B) bookmarks)"
  let ?batches = "map ?f [0..<?n]"
  let ?d = "run_batches callAI onProgress (length bookmarks) 0
             (map (\<lambda>k. take batchSize (drop (k * batchSize) bookmarks))
                  [0..<(length bookmarks + batchSize - 1) div batchSize])
             \<lparr>results = Map.empty, ai_calls = [], progress = []\<rparr>"
  have p: "push_batches B bookmarks 0 [] = Some ?batches"
    by (rule push_batches_chunks[OF assms])
  have l: "length ?batches = ?n" by simp
  have "take (?n * B) bookmarks = bookmarks"
    using ceil_mult_ge[OF assms, of "length bookmarks"] by simp
  then have c: "concat ?batches = bookmarks"
    by (simp only: concat_chunks)
  have k: "?batches ! k = ?f k \<and> ?batches ! k \<noteq> []
           \<and> (Suc k < length ?batches \<longrightarrow> length (?batches ! k) = B)"
    if "k < length ?batches" for k
  proof -
    from that have kn: "k < ?n" by simp
    then have nth: "?batches ! k = ?f k" by simp
    have lt: "k * B < length bookmarks" by (rule ceil_pred_mult_lt[OF assms kn])
    then have ne: "?f k \<noteq> []" using assms by simp
    have full: "length (?f k) = B" if "Suc k < ?n"
    proof -
      from ceil_pred_mult_lt[OF assms that] have "k * B + B \<le> length bookmarks" by simp
      then show ?thesis by simp
    qed
    from nth ne full show ?thesis by simp
  qed
  have g: "getOrganizeSuggestions callAI bookmarks onProgress = Some ?d"
    by (rule getOrganizeSuggestions_Some)
  have "0 < batchSize" by (simp add: batchSize_def)
  from push_batches_chunks[OF this, of bookmarks]
  have a: "push_batches batchSize bookmarks 0 [] = Some (ai_calls ?d)"
    by (simp only: run_batches_ai_calls dispatch.simps append_Nil)
  show ?thesis
    apply (rule exI[of _ ?batches])
    apply (rule exI[of _ ?d])
    apply (intro conjI allI impI)
    using p l c k g a apply simp_all
    done
qed

theorem batches_partition_witness:
  "(0::nat) < 20
   \<and> push_batches 20 bookmarks21 0 [] = Some [take 20 bookmarks21, drop 20 bookmarks21]
   \<and> map_option ai_calls (getOrganizeSuggestions first_fails bookmarks21 False)
       = Some [take 20 bookmarks21, drop 20 bookmarks21]"
proof -
  have h: "(0::nat) < 20" by simp
  have a: "push_batches 20 bookmarks21 0 [] = Some [take 20 bookmarks21, drop 20 bookmarks21]"
    by code_simp
  have b: "map_option ai_calls (getOrganizeSuggestions first_fails bookmarks21 False)
           = Some [take 20 bookmarks21, drop 20 bookmarks21]"
    by code_simp
  from batches_partition[OF h, of bookmarks21 first_fails False] h a b
  show ?thesis by (intro conjI) (assumption+)
qed

text \<open>
  C4 fails on the code: the callback is called once after each batch, with the total N, but
  its first argument is \<^verbatim>\<open>(i + 1) * batchSize\<close>, which counts a full batch for a last batch
  that is not full.  For one bookmark the only report is 20 of 1.
\<close>

theorem progress_overshoots:
  "map_option progress (getOrganizeSuggestions callAI [bookmark1] True) = Some [(20, 1)]"
proof -
  have "(length [bookmark1] + batchSize - 1) div batchSize = 1"
    by (simp add: batchSize_def)
  then show ?thesis
    by (simp add: getOrganizeSuggestions_Some run_batches_progress batchSize_def)
qed

lemma forEach_set_entries:
  "forEach_set items m = m ++ map_of (rev (stored_items items))"
proof (induction items arbitrary: m)
  case Nil
  then show ?case by simp
next
  case (Cons x rest)
  show ?case
  proof (cases x)
    case ItemNull
    then show ?thesis by simp
  next
    case (Item i c n)
    have "forEach_set (x # rest) m = forEach_set rest (m(i \<mapsto> (c, n)))"
      using Item by simp
    also have "\<dots> = m(i \<mapsto> (c, n)) ++ map_of (rev (stored_items rest))"
      by (rule Cons)
    also have "\<dots> = m ++ map_of (rev (stored_items (x # rest)))"
      unfolding Item by (rule ext) (simp add: map_add_def split: option.splits)
    finally show ?thesis .
  qed
qed

lemma response_entries:
  "(case r of Parsed items \<Rightarrow> forEach_set items m | _ \<Rightarrow> m) = m ++ map_of (rev (stored_entries r))"
  by (cases r) (simp_all add: forEach_set_entries)

lemma run_batches_results:
  "results (run_batches callAI onProgress len i bs st)
   = results st ++ map_of (rev (concat (map (\<lambda>k. stored_entries (callAI (i + k) (bs ! k)))
                                          [0..<length bs])))"
proof (induction bs arbitrary: i st)
  case Nil
  then show ?case by simp
next
  case (Cons b rest)
  let ?st' = "\<lparr>results = results st ++ map_of (rev (stored_entries (callAI i b))),
               ai_calls = ai_calls st @ [b],
               progress = (if onProgress then progress st @ [((i + 1) * batchSize, len)]
                           else progress st)\<rparr>"
  have "run_batches callAI onProgress len i (b # rest) st
        = run_batches callAI onProgress len (i + 1) rest ?st'"
    by (simp add: Let_def response_entries)
  then have "results (run_batches callAI onProgress len i (b # rest) st)
        = results ?st' ++ map_of (rev (concat (map (\<lambda>k. stored_entries (callAI (i + 1 + k) (rest ! k)))
                                          [0..<length rest])))"
    by (simp only: Cons.IH)
  then show ?case
    by (simp add: map_upt_Suc map_add_assoc del: upt_Suc)
qed

lemma run_batches_results_entries:
  "results (run_batches callAI onProgress len 0 bs
              \<lparr>results = Map.empty, ai_calls = [], progress = []\<rparr>)
   = map_of (rev (concat (map (batch_entries callAI bs) [0..<length bs])))"
proof -
  have "(\<lambda>k. stored_entries (callAI (0 + k) (bs ! k))) = batch_entries callAI bs"
    by (rule ext) (simp add: batch_entries_def)
  then show ?thesis by (simp add: run_batches_results)
qed

lemma concat_skip_empty:
  "f k = [] \<Longrightarrow> concat (map f (filter (\<lambda>j. j \<noteq> k) xs)) = concat (map f xs)"
  by (induction xs) auto

lemma failed_response_entries:
  "failed_response r \<Longrightarrow> stored_entries r = []"
  by (auto simp: failed_response_def)

lemma map_of_rev_None: "i \<notin> fst ` set E \<Longrightarrow> map_of (rev E) i = None"
  by (simp add: map_of_eq_None_iff)

lemma map_of_rev_not_None: "e \<in> set E \<Longrightarrow> map_of (rev E) (fst e) \<noteq> None"
  by (simp add: map_of_eq_None_iff)

lemma map_of_rev_Some:
  assumes "distinct (map fst E)" "e \<in> set E"
  shows "map_of (rev E) (fst e) = Some (snd e)"
proof -
  from assms(1) have "distinct (map fst (rev E))" by (simp add: rev_map[symmetric])
  moreover from assms(2) have "(fst e, snd e) \<in> set (rev E)" by simp
  ultimately show ?thesis by (rule map_of_is_SomeI)
qed


text \<open>
  C5, as the claim states it, fails: the map is keyed by the ids that the responses carry, so
  a bookmark of a failed batch is in the map when the response to another batch names its id.
  Here the first call rejects and the answer to the second batch names the first bookmark.
\<close>

theorem failed_batch_counterexample:
  "first_fails 0 (take 20 bookmarks21) = Throws
   \<and> numbered_bookmark 0 \<in> set (take 20 bookmarks21)
   \<and> map_option ai_calls (getOrganizeSuggestions first_fails bookmarks21 False)
       = Some [take 20 bookmarks21, drop 20 bookmarks21]
   \<and> map_option (\<lambda>d. results d (nid (numbered_bookmark 0)))
         (getOrganizeSuggestions first_fails bookmarks21 False) = Some (Some (''Research'', True))"
proof (intro conjI)
  show "first_fails 0 (take 20 bookmarks21) = Throws" by (simp add: first_fails_def)
  show "numbered_bookmark 0 \<in> set (take 20 bookmarks21)" by code_simp
  show "map_option ai_calls (getOrganizeSuggestions first_fails bookmarks21 False)
       = Some [take 20 bookmarks21, drop 20 bookmarks21]" by code_simp
  show "map_option (\<lambda>d. results d (nid (numbered_bookmark 0)))
         (getOrganizeSuggestions first_fails bookmarks21 False) = Some (Some (''Research'', True))"
    by code_simp
qed

text \<open>
  C5, amended.  The dispatcher always returns and calls the classifier for every batch.  A
  batch whose call rejects or whose answer is not JSON or not an array stores nothing: the
  returned map is the one built from the entries of the other batches' responses, in order, a
  later entry replacing an earlier one with the same id.  A bookmark of the failed batch is
  absent from the map when no response names its id; every id that a response stores is in
  the map, with that response's value when no id is stored twice.
\<close>

theorem failed_batch_contributes_nothing:
  "\<exists>d batches.
       getOrganizeSuggestions callAI bookmarks onProgress = Some d
     \<and> push_batches batchSize bookmarks 0 [] = Some batches
     \<and> ai_calls d = batches
     \<and> (\<forall>k<length batches. failed_response (callAI k (batches ! k)) \<longrightarrow>
            results d = map_of (rev (concat (map (batch_entries callAI batches)
                                              (filter (\<lambda>j. j \<noteq> k) [0..<length batches]))))
          \<and> (\<forall>b\<in>set (batches ! k).
                 nid b \<notin> fst ` set (concat (map (batch_entries callAI batches) [0..<length batches]))
                 \<longrightarrow> results d (nid b) = None))
     \<and> (\<forall>j<length batches. \<forall>e\<in>set (batch_entries callAI batches j). results d (fst e) \<noteq> None)
     \<and> (distinct (map fst (concat (map (batch_entries callAI batches) [0..<length batches])))
          \<longrightarrow> (\<forall>j<length batches. \<forall>e\<in>set (batch_entries callAI batches j).
                 results d (fst e) = Some (snd e)))"
proof -
  let ?batches = "map (\<lambda>k. take batchSize (drop (k * batchSize) bookmarks))
                      [0..<(length bookmarks + batchSize - 1) div batchSize]"
  let ?d = "run_batches callAI onProgress (length bookmarks) 0 ?batches
              \<lparr>results = Map.empty, ai_calls = [], progress = []\<rparr>"
  let ?E = "concat (map (batch_entries callAI ?batches) [0..<length ?batches])"
  have pos: "0 < batchSize" by (simp add: batchSize_def)
  have g: "getOrganizeSuggestions callAI bookmarks onProgress = Some ?d"
    by (rule getOrganizeSuggestions_Some)
  have p: "push_batches batchSize bookmarks 0 [] = Some ?batches"
    by (rule push_batches_chunks[OF pos])
  have a: "ai_calls ?d = ?batches"
    by (simp only: run_batches_ai_calls dispatch.simps append_Nil)
  have r: "results ?d = map_of (rev ?E)"
    by (rule run_batches_results_entries)
  have skip: "results ?d = map_of (rev (concat (map (batch_entries callAI ?batches)
                                              (filter (\<lambda>j. j \<noteq> k) [0..<length ?batches]))))"
    if "failed_response (callAI k (?batches ! k))" for k
  proof -
    from that have "batch_entries callAI ?batches k = []"
      unfolding batch_entries_def by (rule failed_response_entries)
    then show ?thesis unfolding r by (simp only: concat_skip_empty)
  qed
  have absent: "results ?d i = None" if "i \<notin> fst ` set ?E" for i
    unfolding r using that by (rule map_of_rev_None)
  have mem: "e \<in> set ?E" if "j < length ?batches" "e \<in> set (batch_entries callAI ?batches j)" for j e
    using that by auto
  have present: "results ?d (fst e) \<noteq> None"
    if "j < length ?batches" "e \<in> set (batch_entries callAI ?batches j)" for j e
    unfolding r using mem[OF that] by (rule map_of_rev_not_None)
  have exact: "results ?d (fst e) = Some (snd e)"
    if "distinct (map fst ?E)" "j < length ?batches" "e \<in> set (batch_entries callAI ?batches j)"
    for j e
    unfolding r using that(1) mem[OF that(2,3)] by (rule map_of_rev_Some)
  show ?thesis
    apply (rule exI[of _ ?d])
    apply (rule exI[of _ ?batches])
    apply (intro conjI allI impI ballI)
    subgoal by (rule g)
    subgoal by (rule p)
    subgoal by (rule a)
    subgoal by (rule skip)
    subgoal by (rule absent)
    subgoal by (rule present)
    subgoal by (rule exact)
    done
qed


theorem failed_batch_contributes_nothing_witness:
  "failed_response (second_fails 1 (drop 20 bookmarks21))
   \<and> map_option ai_calls (getOrganizeSuggestions second_fails bookmarks21 False)
       = Some [take 20 bookmarks21, drop 20 bookmarks21]
   \<and> map_option (\<lambda>d. results d (nid (numbered_bookmark 20)))
         (getOrganizeSuggestions second_fails bookmarks21 False) = Some None
   \<and> map_option (\<lambda>d. results d (nid (numbered_bookmark 0)))
         (getOrganizeSuggestions second_fails bookmarks21 False) = Some (Some (''Research'', True))"
proof -
  have a: "failed_response (second_fails 1 (drop 20 bookmarks21))"
    by (simp add: second_fails_def failed_response_def)
  have b: "map_option ai_calls (getOrganizeSuggestions second_fails bookmarks21 False)
       = Some [take 20 bookmarks21, drop 20 bookmarks21]"
    by code_simp
  have c: "map_option (\<lambda>d. results d (nid (numbered_bookmark 20)))
         (getOrganizeSuggestions second_fails bookmarks21 False) = Some None"
    by code_simp
  have d: "map_option (\<lambda>d. results d (nid (numbered_bookmark 0)))
         (getOrganizeSuggestions second_fails bookmarks21 False) = Some (Some (''Research'', True))"
    by code_simp
  from failed_batch_contributes_nothing[of second_fails bookmarks21 False] a b c d
  show ?thesis by (intro conjI) (assumption+)
qed

section \<open>Properties of the apply step\<close>

lemma do_create_trace:
  "trace (snd (do_create c parent t u s)) = trace s @ [Create parent t u]"
  by (simp add: do_create_def split: sum.splits prod.splits)

lemma do_move_trace:
  "trace (snd (do_move c b parent s)) = trace s @ [Move b parent]"
  by (simp add: do_move_def split: sum.splits prod.splits)

lemma create_new_folders_trace:
  "create_new_folders c tree rs nf s = (e, nf', s') \<Longrightarrow>
   \<exists>new. trace s' = trace s @ map (\<lambda>t. Create (findBookmarkBarId tree) t None) new
        \<and> distinct new \<and> set new \<inter> dom nf = {}
        \<and> set new \<subseteq> suggestedFolder ` {r \<in> set rs. isNewCategory r}
        \<and> dom nf' \<subseteq> dom nf \<union> set new"
proof (induction rs arbitrary: nf s)
  case Nil
  then show ?case by (intro exI[of _ "[]"]) auto
next
  case (Cons r rest)
  show ?case
  proof (cases "isNewCategory r \<and> nf (suggestedFolder r) = None")
    case False
    with Cons.prems have "create_new_folders c tree rest nf s = (e, nf', s')" by auto
    from Cons.IH[OF this] obtain new where
      "trace s' = trace s @ map (\<lambda>t. Create (findBookmarkBarId tree) t None) new"
      "distinct new" "set new \<inter> dom nf = {}"
      "set new \<subseteq> suggestedFolder ` {r \<in> set rest. isNewCategory r}"
      "dom nf' \<subseteq> dom nf \<union> set new"
      by blast
    then show ?thesis by (intro exI[of _ new]) auto
  next
    case True
    let ?name = "suggestedFolder r"
    let ?call = "Create (findBookmarkBarId tree) ?name None"
    obtain res s1 where dc: "do_create c (findBookmarkBarId tree) ?name None s = (res, s1)"
      by (cases "do_create c (findBookmarkBarId tree) ?name None s")
    from do_create_trace[of c "findBookmarkBarId tree" ?name None s] dc
    have t1: "trace s1 = trace s @ [?call]" by simp
    show ?thesis
    proof (cases res)
      case (Inl err)
      with True dc Cons.prems have "s' = s1" "nf' = nf" by (auto simp: Let_def)
      with t1 True show ?thesis by (intro exI[of _ "[?name]"]) auto
    next
      case (Inr newId)
      with True dc Cons.prems
      have "create_new_folders c tree rest (nf(?name \<mapsto> newId)) s1 = (e, nf', s')"
        by (auto simp: Let_def)
      from Cons.IH[OF this] obtain new where
        n: "trace s' = trace s1 @ map (\<lambda>t. Create (findBookmarkBarId tree) t None) new"
           "distinct new" "set new \<inter> dom (nf(?name \<mapsto> newId)) = {}"
           "set new \<subseteq> suggestedFolder ` {r \<in> set rest. isNewCategory r}"
           "dom nf' \<subseteq> dom (nf(?name \<mapsto> newId)) \<union> set new"
        by blast
      from n t1 True show ?thesis
        by (intro exI[of _ "?name # new"]) auto
    qed
  qed
qed

lemma move_bookmarks_trace:
  "create_titles (trace (snd (move_bookmarks c folders rs nf s))) = create_titles (trace s)
   \<and> create_parents (trace (snd (move_bookmarks c folders rs nf s))) = create_parents (trace s)"
proof (induction rs arbitrary: s)
  case Nil
  then show ?case by simp
next
  case (Cons r rest)
  let ?target = "targetFolderId folders nf r"
  show ?case
  proof (cases "truthy ?target \<and> the ?target \<noteq> bookmarkId r")
    case False
    then show ?thesis using Cons.IH[of s] by (auto simp: Let_def)
  next
    case True
    obtain res s1 where dm: "do_move c (bookmarkId r) (the ?target) s = (res, s1)"
      by (cases "do_move c (bookmarkId r) (the ?target) s")
    from do_move_trace[of c "bookmarkId r" "the ?target" s] dm
    have t1: "trace s1 = trace s @ [Move (bookmarkId r) (the ?target)]" by simp
    have ct: "create_titles (xs @ [Move a b]) = create_titles xs"
             "create_parents (xs @ [Move a b]) = create_parents xs" for xs a b
      by (induction xs rule: create_titles.induct) simp_all
    show ?thesis
    proof (cases res)
      case (Inl err)
      with True dm t1 show ?thesis by (simp add: Let_def ct)
    next
      case (Inr u)
      with True dm t1 Cons.IH[of s1] show ?thesis by (simp add: Let_def ct)
    qed
  qed
qed

lemma create_titles_map:
  "create_titles (map (\<lambda>t. Create p t u) new) = new"
  "create_parents (map (\<lambda>t. Create p t u) new) = replicate (length new) p"
  by (induction new) simp_all

lemma handleApplyChanges_creates:
  "\<exists>new. create_titles (trace (snd (handleApplyChanges c tree rs w))) = new
       \<and> create_parents (trace (snd (handleApplyChanges c tree rs w)))
           = replicate (length new) (findBookmarkBarId tree)
       \<and> distinct new
       \<and> set new \<subseteq> suggestedFolder ` {r \<in> set rs. isNewCategory r}"
proof -
  obtain e nf s where cn:
    "create_new_folders c tree rs Map.empty \<lparr>trace = [], world = w\<rparr> = (e, nf, s)"
    by (cases "create_new_folders c tree rs Map.empty \<lparr>trace = [], world = w\<rparr>")
  from create_new_folders_trace[OF cn] obtain new where
    n: "trace s = map (\<lambda>t. Create (findBookmarkBarId tree) t None) new" "distinct new"
       "set new \<subseteq> suggestedFolder ` {r \<in> set rs. isNewCategory r}"
    by auto
  have "create_titles (trace (snd (handleApplyChanges c tree rs w))) = create_titles (trace s)
      \<and> create_parents (trace (snd (handleApplyChanges c tree rs w))) = create_parents (trace s)"
  proof (cases e)
    case None
    with cn show ?thesis by (simp add: handleApplyChanges_def Let_def move_bookmarks_trace)
  next
    case (Some err)
    with cn show ?thesis by (simp add: handleApplyChanges_def Let_def)
  qed
  with n show ?thesis by (simp add: create_titles_map)
qed

lemma create_new_folders_nothing_new:
  "(\<And>r. r \<in> set rs \<Longrightarrow> isNewCategory r \<Longrightarrow> nf (suggestedFolder r) \<noteq> None)
   \<Longrightarrow> create_new_folders c tree rs nf s = (None, nf, s)"
proof (induction rs)
  case Nil
  then show ?case by simp
next
  case (Cons r rest)
  have "\<not> (isNewCategory r \<and> nf (suggestedFolder r) = None)"
    using Cons.prems[of r] by auto
  moreover have "create_new_folders c tree rest nf s = (None, nf, s)"
    by (rule Cons.IH) (use Cons.prems in auto)
  ultimately show ?case by auto
qed

lemma create_new_folders_same_name:
  assumes "rs \<noteq> []" "\<And>r. r \<in> set rs \<Longrightarrow> isNewCategory r \<and> suggestedFolder r = name"
    and "nf name = None"
  shows "trace (snd (snd (create_new_folders c tree rs nf s)))
         = trace s @ [Create (findBookmarkBarId tree) name None]"
proof -
  from assms(1) obtain r rest where rs: "rs = r # rest" by (cases rs) auto
  from assms(2) rs have r: "isNewCategory r" "suggestedFolder r = name" by auto
  obtain res s1 where dc: "do_create c (findBookmarkBarId tree) name None s = (res, s1)"
    by (cases "do_create c (findBookmarkBarId tree) name None s")
  from do_create_trace[of c "findBookmarkBarId tree" name None s] dc
  have t1: "trace s1 = trace s @ [Create (findBookmarkBarId tree) name None]" by simp
  show ?thesis
  proof (cases res)
    case (Inl err)
    with rs r dc t1 assms(3) show ?thesis by (simp add: Let_def)
  next
    case (Inr newId)
    have "create_new_folders c tree rest (nf(name \<mapsto> newId)) s1 = (None, nf(name \<mapsto> newId), s1)"
      by (rule create_new_folders_nothing_new) (use assms(2) rs in auto)
    with Inr rs r dc t1 assms(3) show ?thesis by (simp add: Let_def)
  qed
qed

lemma handleApplyChanges_create_titles:
  "create_titles (trace (snd (handleApplyChanges c tree rs w)))
   = create_titles (trace (snd (snd (create_new_folders c tree rs Map.empty
                                        \<lparr>trace = [], world = w\<rparr>))))"
proof -
  obtain e nf s where cn:
    "create_new_folders c tree rs Map.empty \<lparr>trace = [], world = w\<rparr> = (e, nf, s)"
    by (cases "create_new_folders c tree rs Map.empty \<lparr>trace = [], world = w\<rparr>")
  show ?thesis
  proof (cases e)
    case None
    with cn show ?thesis by (simp add: handleApplyChanges_def Let_def move_bookmarks_trace)
  next
    case (Some err)
    with cn show ?thesis by (simp add: handleApplyChanges_def Let_def)
  qed
qed

text \<open>
  C3.  In the trace of the calls that \<open>handleApplyChanges\<close> issues, whatever the browser
  answers, no two \<^verbatim>\<open>create\<close> calls have the same title, and every title created is the
  suggested folder of a result flagged \<^verbatim>\<open>isNewCategory\<close>.  When every result of a non-empty
  list suggests the same new category, exactly one \<^verbatim>\<open>create\<close> call is issued, for that name.
\<close>

theorem one_create_per_new_category:
  "distinct (create_titles (trace (snd (handleApplyChanges c tree rs w))))
   \<and> set (create_titles (trace (snd (handleApplyChanges c tree rs w))))
       \<subseteq> suggestedFolder ` {r \<in> set rs. isNewCategory r}
   \<and> (rs \<noteq> [] \<and> (\<forall>r\<in>set rs. isNewCategory r \<and> suggestedFolder r = name)
        \<longrightarrow> create_titles (trace (snd (handleApplyChanges c tree rs w))) = [name])"
proof -
  from handleApplyChanges_creates[of c tree rs w]
  have a: "distinct (create_titles (trace (snd (handleApplyChanges c tree rs w))))"
    and b: "set (create_titles (trace (snd (handleApplyChanges c tree rs w))))
       \<subseteq> suggestedFolder ` {r \<in> set rs. isNewCategory r}"
    by auto
  have c: "create_titles (trace (snd (handleApplyChanges c tree rs w))) = [name]"
    if "rs \<noteq> []" "\<forall>r\<in>set rs. isNewCategory r \<and> suggestedFolder r = name"
  proof -
    have "trace (snd (snd (create_new_folders c tree rs Map.empty \<lparr>trace = [], world = w\<rparr>)))
          = trace \<lparr>trace = [], world = w\<rparr> @ [Create (findBookmarkBarId tree) name None]"
      by (rule create_new_folders_same_name) (use that in auto)
    then show ?thesis by (simp add: handleApplyChanges_create_titles)
  qed
  from a b c show ?thesis by blast
qed

theorem one_create_per_new_category_witness:
  "five_to_research \<noteq> []
   \<and> list_all (\<lambda>r. isNewCategory r \<and> suggestedFolder r = ''Research'') five_to_research
   \<and> length five_to_research = 5
   \<and> create_titles (trace (snd (handleApplyChanges (test_chrome scenario_tree) scenario_tree
                                    five_to_research 0))) = [''Research'']"
proof -
  have a: "five_to_research \<noteq> []" by code_simp
  have b: "list_all (\<lambda>r. isNewCategory r \<and> suggestedFolder r = ''Research'') five_to_research"
    by code_simp
  then have b': "\<forall>r\<in>set five_to_research. isNewCategory r \<and> suggestedFolder r = ''Research''"
    by (simp add: list_all_iff)
  have l: "length five_to_research = 5" by code_simp
  from one_create_per_new_category[of "test_chrome scenario_tree" scenario_tree five_to_research 0
      "''Research''"] a b'
  have "create_titles (trace (snd (handleApplyChanges (test_chrome scenario_tree) scenario_tree
                                    five_to_research 0))) = [''Research'']"
    by blast
  with a b l show ?thesis by (intro conjI) (assumption+)
qed

text \<open>
  C10 fails on the code: \<open>findBookmarkBarId\<close> takes the first node it reaches that has one
  of the two titles, whatever kind of node it is.  In this tree the bookmarks bar (id 1) is
  titled Bookmarks bar and holds a user folder (id 10) titled Bookmarks Bar: the search
  returns 10, and the new folder Research is created inside that user folder, not as a child
  of the bookmarks bar.
\<close>

theorem new_folder_inside_user_folder:
  "findBookmarkBarId tree_with_named_folder = ''10''
   \<and> map nid (getAllFolders tree_with_named_folder) = [''10'']
   \<and> trace (snd (handleApplyChanges (test_chrome tree_with_named_folder) tree_with_named_folder
                    [to_research 0] 0))
       = [Create ''10'' ''Research'' None, Move ''bnew'' ''new'']"
proof (intro conjI)
  show "findBookmarkBarId tree_with_named_folder = ''10''" by code_simp
  show "map nid (getAllFolders tree_with_named_folder) = [''10'']" by code_simp
  show "trace (snd (handleApplyChanges (test_chrome tree_with_named_folder) tree_with_named_folder
                    [to_research 0] 0))
       = [Create ''10'' ''Research'' None, Move ''bnew'' ''new'']" by code_simp
qed


text \<open>
  C1 fails on the code: the guard before the move compares the target folder id with the
  bookmark's own id, not with the id of the folder the bookmark is in.  bookmark1 is in
  FolderA (id 10) and the result keeps it there; the move to folder 10 is issued all the same,
  whatever the browser answers.
\<close>

theorem move_issued_inside_target_folder:
  "nid bookmark1 = ''20'' \<and> parentId bookmark1 = Some ''10'' \<and> nid folderA = ''10''
   \<and> targetFolderId (getAllFolders scenario_tree) Map.empty stays_in_folderA = Some ''10''
   \<and> trace (snd (handleApplyChanges c scenario_tree [stays_in_folderA] w)) = [Move ''20'' ''10'']"
proof -
  have ga: "getAllFolders scenario_tree = [folderA]" by code_simp
  have t: "targetFolderId [folderA] Map.empty stays_in_folderA = Some ''10''"
    by (simp add: targetFolderId_def stays_in_folderA_def folderA_def)
  have f: "isNewCategory stays_in_folderA = False" "bookmarkId stays_in_folderA = ''20''"
    by (simp_all add: stays_in_folderA_def)
  have m: "trace (snd (do_move c ''20'' ''10'' \<lparr>trace = [], world = w\<rparr>)) = [Move ''20'' ''10'']"
    by (simp add: do_move_trace)
  have "handleApplyChanges c scenario_tree [stays_in_folderA] w
        = (case do_move c ''20'' ''10'' \<lparr>trace = [], world = w\<rparr> of
             (Inl e, s') \<Rightarrow> (Some e, s') | (Inr x, s') \<Rightarrow> (None, s'))"
    by (simp add: handleApplyChanges_def ga t f Let_def split: prod.splits sum.splits)
  with m have "trace (snd (handleApplyChanges c scenario_tree [stays_in_folderA] w))
        = [Move ''20'' ''10'']"
    by (auto split: prod.splits sum.splits)
  with ga t show ?thesis by (simp add: bookmark1_def folderA_def)
qed

section \<open>Properties of the restore\<close>



















lemma nodes_of_child:
  "children n = Some ks \<Longrightarrow> x \<in> set ks \<Longrightarrow> set (nodes_of x) \<subseteq> set (nodes_of n)"
  by (cases n) auto
















section \<open>Properties of the tag index\<close>

lemma store_put_cases:
  "store_put tag db = Inr db' \<Longrightarrow> set db' \<subseteq> insert tag (set db)"
  by (auto simp: store_put_def split: if_splits)

lemma store_put_nonempty:
  "store_put tag db = Inr db' \<Longrightarrow> tags_nonempty db \<Longrightarrow> bookmarkIds tag \<noteq> []
   \<Longrightarrow> tags_nonempty db'"
  using store_put_cases[of tag db db'] by (auto simp: tags_nonempty_def list_all_iff)

lemma getTagByName_mem:
  "getTagByName db n = Some t \<Longrightarrow> t \<in> set db \<and> tag_name t = n"
  by (auto simp: getTagByName_def find_Some_iff)

lemma store_get_mem:
  "store_get db i = Some t \<Longrightarrow> t \<in> set db \<and> tag_id t = i"
  by (auto simp: store_get_def find_Some_iff)

lemma addTags_loop_nonempty:
  "tags_nonempty db \<Longrightarrow> tags_nonempty (snd (addTags_loop normalizeName newId now b k names db))"
proof (induction names arbitrary: k db)
  case Nil
  then show ?case by simp
next
  case (Cons tagName rest)
  let ?n = "normalizeName tagName"
  show ?case
  proof (cases "?n = []")
    case True
    with Cons show ?thesis by simp
  next
    case False
    show ?thesis
    proof (cases "getTagByName db ?n")
      case None
      let ?new = "\<lparr>tag_id = newId k, tag_name = ?n, bookmarkIds = [b], createdAt = now k\<rparr>"
      show ?thesis
      proof (cases "saveTag ?new db")
        case (Inl e)
        with False None Cons.prems show ?thesis by (simp add: Let_def)
      next
        case (Inr db')
        then have "tags_nonempty db'"
          using store_put_nonempty[of ?new db db'] Cons.prems by (simp add: saveTag_def)
        from Cons.IH[OF this] False None Inr show ?thesis by (simp add: Let_def)
      qed
    next
      case (Some t)
      show ?thesis
      proof (cases "b \<in> set (bookmarkIds t)")
        case True
        with False Some Cons show ?thesis by (simp add: Let_def)
      next
        case nin: False
        let ?upd = "t\<lparr>bookmarkIds := bookmarkIds t @ [b]\<rparr>"
        show ?thesis
        proof (cases "updateTag ?upd db")
          case (Inl e)
          with False Some nin Cons.prems show ?thesis by (simp add: Let_def)
        next
          case (Inr db')
          then have "tags_nonempty db'"
            using store_put_nonempty[of ?upd db db'] Cons.prems
            by (simp add: updateTag_def saveTag_def)
          from Cons.IH[OF this] False Some nin Inr show ?thesis by (simp add: Let_def)
        qed
      qed
    qed
  qed
qed

lemma removeTag_nonempty:
  "tags_nonempty db \<Longrightarrow> tags_nonempty (removeTagFromBookmark b tagId db)"
proof (cases "store_get db tagId")
  case None
  assume "tags_nonempty db"
  with None show ?thesis by (simp add: removeTagFromBookmark_def)
next
  case (Some t)
  assume ne: "tags_nonempty db"
  let ?ids = "filter (\<lambda>i. i \<noteq> b) (bookmarkIds t)"
  show ?thesis
  proof (cases "?ids = []")
    case True
    with Some ne show ?thesis
      by (simp add: removeTagFromBookmark_def store_delete_def tags_nonempty_def list_all_iff)
  next
    case False
    show ?thesis
    proof (cases "store_put (t\<lparr>bookmarkIds := ?ids\<rparr>) db")
      case (Inl e)
      with Some False ne show ?thesis by (simp add: removeTagFromBookmark_def Let_def)
    next
      case (Inr db')
      with store_put_nonempty[of "t\<lparr>bookmarkIds := ?ids\<rparr>" db db'] ne False
      have "tags_nonempty db'" by simp
      with Some False Inr show ?thesis by (simp add: removeTagFromBookmark_def Let_def)
    qed
  qed
qed

lemma deleteTag_nonempty:
  "tags_nonempty db \<Longrightarrow> tags_nonempty (deleteTag tagId db)"
  by (simp add: deleteTag_def store_delete_def tags_nonempty_def list_all_iff)

lemma added_to_refl: "t \<in> set db \<Longrightarrow> added_to b db t"
  by (simp add: added_to_def)

lemma added_to_step:
  assumes put: "set db1 \<subseteq> insert tag (set db)"
    and tag: "added_to b db tag" "b \<in> set (bookmarkIds tag)"
    and t: "added_to b db1 t"
  shows "added_to b db t"
proof -
  from t consider (old) "t \<in> set db1"
    | (upd) t1 where "t1 \<in> set db1" "b \<notin> set (bookmarkIds t1)"
        "t = t1\<lparr>bookmarkIds := bookmarkIds t1 @ [b]\<rparr>"
    | (new) "bookmarkIds t = [b]"
    by (auto simp: added_to_def list_ex_iff)
  then show ?thesis
  proof cases
    case old
    with put have "t = tag \<or> t \<in> set db" by auto
    with tag(1) show ?thesis by (auto simp: added_to_def)
  next
    case upd
    with put tag(2) have "t1 \<in> set db" by auto
    with upd show ?thesis by (auto simp: added_to_def list_ex_iff)
  next
    case new
    then show ?thesis by (simp add: added_to_def)
  qed
qed

lemma addTags_loop_added:
  "t \<in> set (snd (addTags_loop normalizeName newId now b k names db)) \<Longrightarrow> added_to b db t"
proof (induction names arbitrary: k db)
  case Nil
  then show ?case by (simp add: added_to_refl)
next
  case (Cons tagName rest)
  let ?n = "normalizeName tagName"
  show ?case
  proof (cases "?n = []")
    case True
    with Cons show ?thesis by simp
  next
    case False
    show ?thesis
    proof (cases "getTagByName db ?n")
      case None
      let ?new = "\<lparr>tag_id = newId k, tag_name = ?n, bookmarkIds = [b], createdAt = now k\<rparr>"
      show ?thesis
      proof (cases "saveTag ?new db")
        case (Inl e)
        with False None Cons.prems show ?thesis by (simp add: Let_def added_to_refl)
      next
        case (Inr db')
        with False None Cons.prems
        have "t \<in> set (snd (addTags_loop normalizeName newId now b (k + 1) rest db'))" by (simp add: Let_def)
        from Cons.IH[OF this] have a: "added_to b db' t" .
        from Inr have p: "set db' \<subseteq> insert ?new (set db)"
          using store_put_cases[of ?new db db'] by (simp add: saveTag_def)
        show ?thesis
          by (rule added_to_step[OF p _ _ a]) (simp_all add: added_to_def)
      qed
    next
      case (Some t0)
      show ?thesis
      proof (cases "b \<in> set (bookmarkIds t0)")
        case True
        with False Some Cons show ?thesis by (simp add: Let_def)
      next
        case nin: False
        let ?upd = "t0\<lparr>bookmarkIds := bookmarkIds t0 @ [b]\<rparr>"
        show ?thesis
        proof (cases "updateTag ?upd db")
          case (Inl e)
          with False Some nin Cons.prems show ?thesis by (simp add: Let_def added_to_refl)
        next
          case (Inr db')
          with False Some nin Cons.prems
          have "t \<in> set (snd (addTags_loop normalizeName newId now b (k + 1) rest db'))"
            by (simp add: Let_def)
          from Cons.IH[OF this] have a: "added_to b db' t" .
          from Inr have p: "set db' \<subseteq> insert ?upd (set db)"
            using store_put_cases[of ?upd db db'] by (simp add: updateTag_def saveTag_def)
          from getTagByName_mem[OF Some] nin have u: "added_to b db ?upd"
            by (auto simp: added_to_def list_ex_iff)
          show ?thesis
            by (rule added_to_step[OF p u _ a]) simp
        qed
      qed
    qed
  qed
qed

lemma added_to_distinct:
  "added_to b db t \<Longrightarrow> list_all (\<lambda>t. distinct (bookmarkIds t)) db \<Longrightarrow> distinct (bookmarkIds t)"
  by (auto simp: added_to_def list_ex_iff list_all_iff)

lemma store_put_same_name:
  assumes "names_unique db" "store_get db tagId = Some tag"
  shows "store_put (tag\<lparr>bookmarkIds := ids\<rparr>) db
         = Inr (map (\<lambda>t. if tag_id t = tagId then tag\<lparr>bookmarkIds := ids\<rparr> else t) db)"
proof -
  from store_get_mem[OF assms(2)] have m: "tag \<in> set db" "tag_id tag = tagId" by auto
  have "tag_id t = tagId" if "t \<in> set db" "tag_name t = tag_name tag" for t
  proof -
    from assms(1) have "inj_on tag_name (set db)"
      by (simp add: names_unique_def distinct_map)
    with that m(1) have "t = tag" by (auto dest: inj_onD)
    with m(2) show ?thesis by simp
  qed
  then have "\<not> list_ex (\<lambda>t. tag_id t \<noteq> tagId \<and> tag_name t = tag_name tag) db"
    by (auto simp: list_ex_iff)
  moreover from m have "list_ex (\<lambda>t. tag_id t = tagId) db" by (auto simp: list_ex_iff)
  ultimately show ?thesis using m(2) by (simp add: store_put_def)
qed

lemma find_map_replace:
  "find (\<lambda>t. tag_id t = i) db = Some t0 \<Longrightarrow> tag_id new = i \<Longrightarrow>
   find (\<lambda>t. tag_id t = i) (map (\<lambda>t. if tag_id t = i then new else t) db) = Some new"
  by (induction db) (auto split: if_splits)

lemma removeTag_result:
  assumes "names_unique db" "store_get db tagId = Some tag"
  shows "store_get (removeTagFromBookmark b tagId db) tagId
         = (if filter (\<lambda>i. i \<noteq> b) (bookmarkIds tag) = [] then None
            else Some (tag\<lparr>bookmarkIds := filter (\<lambda>i. i \<noteq> b) (bookmarkIds tag)\<rparr>))"
proof (cases "filter (\<lambda>i. i \<noteq> b) (bookmarkIds tag) = []")
  case True
  have "find (\<lambda>t. tag_id t = tagId) (filter (\<lambda>t. tag_id t \<noteq> tagId) db) = None"
    by (simp add: find_None_iff)
  with True assms(2) show ?thesis
    by (simp add: removeTagFromBookmark_def store_delete_def store_get_def)
next
  case False
  from store_get_mem[OF assms(2)] have i: "tag_id tag = tagId" by simp
  from assms(2) i
  have "store_get (map (\<lambda>t. if tag_id t = tagId
                           then tag\<lparr>bookmarkIds := filter (\<lambda>i. i \<noteq> b) (bookmarkIds tag)\<rparr>
                           else t) db) tagId
        = Some (tag\<lparr>bookmarkIds := filter (\<lambda>i. i \<noteq> b) (bookmarkIds tag)\<rparr>)"
    unfolding store_get_def by (intro find_map_replace) simp_all
  with False assms(2) store_put_same_name[OF assms, of "filter (\<lambda>i. i \<noteq> b) (bookmarkIds tag)"]
  show ?thesis by (simp add: removeTagFromBookmark_def Let_def)
qed

text \<open>
  C9.  When every stored tag has a non-empty bookmark-id set, it is so again after
  \<open>addTagsToBookmark\<close> (also when it stops at a refused \<^verbatim>\<open>put\<close>), after
  \<open>removeTagFromBookmark\<close> and after \<open>deleteTag\<close>.  After \<open>addTagsToBookmark\<close> every tag is an
  untouched one, or an earlier one with the bookmark appended that did not hold it, or a tag
  with the bookmark as its only id; so id sets without duplicates stay so.
  \<open>removeTagFromBookmark\<close> on a stored tag, in a store that satisfies its unique name
  index, leaves no tag under that id when the filtered set is empty, and otherwise the tag
  with the filtered, non-empty set.
\<close>

theorem tag_sets_never_empty:
  assumes "tags_nonempty db"
  shows "tags_nonempty (snd (addTagsToBookmark normalizeName newId now bookmark tagNames db))
       \<and> tags_nonempty (removeTagFromBookmark bookmark tagId db)
       \<and> tags_nonempty (deleteTag tagId db)
       \<and> list_all (added_to bookmark db) (snd (addTagsToBookmark normalizeName newId now bookmark tagNames db))
       \<and> (list_all (\<lambda>t. distinct (bookmarkIds t)) db \<longrightarrow>
            list_all (\<lambda>t. distinct (bookmarkIds t))
              (snd (addTagsToBookmark normalizeName newId now bookmark tagNames db)))
       \<and> (\<forall>tag. names_unique db \<and> store_get db tagId = Some tag \<longrightarrow>
            store_get (removeTagFromBookmark bookmark tagId db) tagId
            = (if filter (\<lambda>i. i \<noteq> bookmark) (bookmarkIds tag) = [] then None
               else Some (tag\<lparr>bookmarkIds := filter (\<lambda>i. i \<noteq> bookmark) (bookmarkIds tag)\<rparr>)))"
proof -
  let ?db' = "snd (addTagsToBookmark normalizeName newId now bookmark tagNames db)"
  have a: "tags_nonempty ?db'"
    unfolding addTagsToBookmark_def by (rule addTags_loop_nonempty[OF assms])
  have r: "tags_nonempty (removeTagFromBookmark bookmark tagId db)"
    by (rule removeTag_nonempty[OF assms])
  have d: "tags_nonempty (deleteTag tagId db)"
    by (rule deleteTag_nonempty[OF assms])
  have s: "list_all (added_to bookmark db) ?db'"
    unfolding addTagsToBookmark_def list_all_iff by (intro ballI) (rule addTags_loop_added)
  have u: "list_all (\<lambda>t. distinct (bookmarkIds t)) ?db'"
    if "list_all (\<lambda>t. distinct (bookmarkIds t)) db"
    using s that by (auto simp: list_all_iff intro: added_to_distinct)
  have g: "store_get (removeTagFromBookmark bookmark tagId db) tagId
            = (if filter (\<lambda>i. i \<noteq> bookmark) (bookmarkIds tag) = [] then None
               else Some (tag\<lparr>bookmarkIds := filter (\<lambda>i. i \<noteq> bookmark) (bookmarkIds tag)\<rparr>))"
    if "names_unique db" "store_get db tagId = Some tag" for tag
    by (rule removeTag_result[OF that])
  from a r d s u g show ?thesis by blast
qed


theorem tag_sets_never_empty_witness:
  "tags_nonempty [tag_ai [''X'', ''Y'']] \<and> names_unique [tag_ai [''X'', ''Y'']]
   \<and> snd (addTagsToBookmark ascii_normalize (\<lambda>k. ''tag_1'') (\<lambda>k. 1) ''X'' ['' AI ''] []) = [tag_ai [''X'']]
   \<and> snd (addTagsToBookmark ascii_normalize (\<lambda>k. ''tag_2'') (\<lambda>k. 2) ''Y'' [''ai'', ''Ai''] [tag_ai [''X'']])
       = [tag_ai [''X'', ''Y'']]
   \<and> removeTagFromBookmark ''X'' ''tag_1'' [tag_ai [''X'']] = []
   \<and> removeTagFromBookmark ''X'' ''tag_1'' [tag_ai [''X'', ''Y'']] = [tag_ai [''Y'']]
   \<and> store_get (removeTagFromBookmark ''X'' ''tag_1'' [tag_ai [''X'', ''Y'']]) ''tag_1''
       = Some (tag_ai [''Y''])"
proof -
  have 1: "tags_nonempty [tag_ai [''X'', ''Y'']]" by code_simp
  have 2: "names_unique [tag_ai [''X'', ''Y'']]" by code_simp
  have 3: "snd (addTagsToBookmark ascii_normalize (\<lambda>k. ''tag_1'') (\<lambda>k. 1) ''X'' ['' AI ''] []) = [tag_ai [''X'']]"
    by code_simp
  have 4: "snd (addTagsToBookmark ascii_normalize (\<lambda>k. ''tag_2'') (\<lambda>k. 2) ''Y'' [''ai'', ''Ai''] [tag_ai [''X'']])
       = [tag_ai [''X'', ''Y'']]"
    by code_simp
  have 5: "removeTagFromBookmark ''X'' ''tag_1'' [tag_ai [''X'']] = []" by code_simp
  have 6: "removeTagFromBookmark ''X'' ''tag_1'' [tag_ai [''X'', ''Y'']] = [tag_ai [''Y'']]"
    by code_simp
  have g: "store_get [tag_ai [''X'', ''Y'']] ''tag_1'' = Some (tag_ai [''X'', ''Y''])"
    by code_simp
  have f: "(tag_ai [''X'', ''Y''])\<lparr>bookmarkIds := filter (\<lambda>i. i \<noteq> ''X'') (bookmarkIds (tag_ai [''X'', ''Y'']))\<rparr>
           = tag_ai [''Y'']"
    "filter (\<lambda>i. i \<noteq> ''X'') (bookmarkIds (tag_ai [''X'', ''Y''])) \<noteq> []"
    by (simp_all add: tag_ai_def)
  from tag_sets_never_empty[OF 1, where bookmark = "''X''" and tagId = "''tag_1''"] 2 g
  have "store_get (removeTagFromBookmark ''X'' ''tag_1'' [tag_ai [''X'', ''Y'']]) ''tag_1''
        = (if filter (\<lambda>i. i \<noteq> ''X'') (bookmarkIds (tag_ai [''X'', ''Y''])) = [] then None
           else Some ((tag_ai [''X'', ''Y''])\<lparr>bookmarkIds :=
                        filter (\<lambda>i. i \<noteq> ''X'') (bookmarkIds (tag_ai [''X'', ''Y'']))\<rparr>))"
    by blast
  with f have 7: "store_get (removeTagFromBookmark ''X'' ''tag_1'' [tag_ai [''X'', ''Y'']]) ''tag_1''
       = Some (tag_ai [''Y''])" by simp
  from 1 2 3 4 5 6 7 show ?thesis by (intro conjI) (assumption+)
qed

end
